theory Spec2Isabelle
  imports Main "HOL-Library.Word"
begin

section \<open>The console line discipline of kernel/console.c\<close>

text \<open>
  The console keeps one input ring \<open>cons\<close>: a 128 byte array and three \<open>uint\<close>
  cursors \<open>r\<close> (read), \<open>w\<close> (write) and \<open>e\<close> (edit).  The interrupt handler
  \<open>consoleintr\<close> edits the ring, \<open>consoleread\<close> drains it.  Both run with
  \<open>cons.lock\<close> held, so each call of \<open>consoleintr\<close>, and each stretch of
  \<open>consoleread\<close> between two calls of \<open>sleep\<close>, is one atomic transition of the
  state below.

  The \<open>uint\<close> cursors are 32 bit words, so \<open>+\<close> and \<open>-\<close> wrap as in C.  The
  \<open>int\<close> variables (\<open>c\<close>, \<open>n\<close>, the return value) are HOL integers: the code
  only compares \<open>c\<close> and truncates it to a \<open>char\<close>, and it decrements \<open>n\<close> only
  while it is positive, so no operation on them can overflow.  \<open>target\<close> is a
  \<open>uint\<close> holding the initial \<open>n\<close>; it is only read while \<open>n\<close> is positive
  and in \<open>target - n\<close>, which lies between 0 and the initial \<open>n\<close>, so it is an
  integer here as well.
\<close>

subsection \<open>Effects\<close>

text \<open>
  Everything the code does besides updating \<open>cons\<close> is recorded, in program order,
  in a trace: the characters handed to \<open>uartputc_sync\<close>, the calls of \<open>procdump\<close>
  and \<open>wakeup\<close>, and the bytes \<open>either_copyout\<close> stored at the destination.  The
  store into \<open>cons.buf\<close> is recorded too (slot and byte), which makes the order of
  the echo and the store observable.
\<close>

datatype event =
    Uartputc_sync int
  | Procdump
  | Wakeup
  | Store nat "8 word"
  | Copyout "64 word" "8 word"

record cons_state =
  cons_buf :: "8 word list"
  cons_r :: "32 word"
  cons_w :: "32 word"
  cons_e :: "32 word"
  trace :: "event list"

definition INPUT_BUF_SIZE :: nat where
  "INPUT_BUF_SIZE = 128"

definition BACKSPACE :: int where
  "BACKSPACE = 256"

text \<open>\<open>C(x)\<close> is \<open>x - '@'\<close>; the argument is the character code of \<open>x\<close>.\<close>

definition C :: "int \<Rightarrow> int" where
  "C x = x - 64"

text \<open>The statically allocated \<open>cons\<close>: zeroed memory, nothing emitted yet.\<close>

definition cons_init :: cons_state where
  "cons_init = \<lparr>cons_buf = replicate 128 0, cons_r = 0, cons_w = 0, cons_e = 0, trace = []\<rparr>"

definition emit :: "event list \<Rightarrow> cons_state \<Rightarrow> cons_state" where
  "emit es s = s\<lparr>trace := trace s @ es\<rparr>"

subsection \<open>consputc\<close>

definition consputc :: "int \<Rightarrow> cons_state \<Rightarrow> cons_state" where
  "consputc c s =
     (if c = BACKSPACE
      then emit [Uartputc_sync 8, Uartputc_sync 32, Uartputc_sync 8] s
      else emit [Uartputc_sync c] s)"

subsection \<open>consoleintr\<close>

text \<open>
  The kill-line loop: while \<open>cons.e != cons.w\<close> and the byte before \<open>cons.e\<close> is
  not a newline, step \<open>cons.e\<close> back and echo a backspace.
\<close>

function kill_line :: "cons_state \<Rightarrow> cons_state" where
  "kill_line s =
     (if cons_e s \<noteq> cons_w s \<and>
         cons_buf s ! (unat (cons_e s - 1) mod INPUT_BUF_SIZE) \<noteq> 10
      then kill_line (consputc BACKSPACE (s\<lparr>cons_e := cons_e s - 1\<rparr>))
      else s)"
  by pat_completeness auto
termination
proof (relation "measure (\<lambda>s. unat (cons_e s - cons_w s))")
  show "wf (measure (\<lambda>s. unat (cons_e s - cons_w s)))"
    by simp
next
  fix s :: cons_state
  assume a: "cons_e s \<noteq> cons_w s \<and>
    cons_buf s ! (unat (cons_e s - 1) mod INPUT_BUF_SIZE) \<noteq> 10"
  then have nz: "cons_e s - cons_w s \<noteq> 0"
    by simp
  have eq: "cons_e s - 1 - cons_w s = (cons_e s - cons_w s) - 1"
    by simp
  have "unat (cons_e s - 1 - cons_w s) < unat (cons_e s - cons_w s)"
    unfolding eq by (rule measure_unat [OF nz])
  then show "(consputc BACKSPACE (s\<lparr>cons_e := cons_e s - 1\<rparr>), s)
          \<in> measure (\<lambda>s. unat (cons_e s - cons_w s))"
    by (simp add: consputc_def emit_def)
qed

declare kill_line.simps [simp del]

text \<open>
  The default branch stores \<open>c\<close> (an \<open>int\<close>) into a \<open>char\<close> slot, keeping its low
  eight bits, and then still tests the untruncated \<open>c\<close>.
\<close>

definition consoleintr :: "int \<Rightarrow> cons_state \<Rightarrow> cons_state" where
  "consoleintr c s =
     (if c = C 80 then emit [Procdump] s
      else if c = C 85 then kill_line s
      else if c = C 72 \<or> c = 127 then
        (if cons_e s \<noteq> cons_w s
         then consputc BACKSPACE (s\<lparr>cons_e := cons_e s - 1\<rparr>)
         else s)
      else if c \<noteq> 0 \<and> cons_e s - cons_r s < 128 then
        (let c' = (if c = 13 then 10 else c);
             s1 = consputc c' s;
             s2 = emit [Store (unat (cons_e s1) mod INPUT_BUF_SIZE) (word_of_int c')]
                    (s1\<lparr>cons_buf := (cons_buf s1)
                           [unat (cons_e s1) mod INPUT_BUF_SIZE := word_of_int c'],
                         cons_e := cons_e s1 + 1\<rparr>)
         in if c' = 10 \<or> c' = C 68 \<or> cons_e s2 - cons_r s2 = 128
            then emit [Wakeup] (s2\<lparr>cons_w := cons_e s2\<rparr>)
            else s2)
      else s)"

subsection \<open>consoleread\<close>

text \<open>
  \<open>either_copyout\<close> and \<open>killed\<close> are not part of this file.  They are parameters:
  \<open>ok user_dst dst\<close> tells whether the one byte copy to \<open>dst\<close> succeeds, and
  \<open>kd\<close> is what \<open>killed(myproc())\<close> answers when the loop asks.

  A call that reaches \<open>sleep\<close> gives up the lock; other code runs, and the call
  goes on later from the test \<open>cons.r == cons.w\<close> with its local variables
  unchanged.  The outcome \<open>Sleeping\<close> carries these local variables, and running
  \<open>consoleread_loop\<close> on them is the resumption (\<open>n\<close> is still positive, so the
  outer test passes again).

  The byte read from \<open>cons.buf\<close> is widened to the \<open>int\<close> \<open>c\<close> as an unsigned
  \<open>char\<close>, as on RISC-V.  With a signed \<open>char\<close> the bytes from 128 on would be
  negative, which changes neither of the two comparisons nor the byte that
  \<open>cbuf = c\<close> copies out.
\<close>

datatype outcome =
    Returned int
  | Sleeping int "64 word" int int

function consoleread_loop ::
  "bool \<Rightarrow> (int \<Rightarrow> 64 word \<Rightarrow> bool) \<Rightarrow> int \<Rightarrow> 64 word \<Rightarrow> int \<Rightarrow> int \<Rightarrow> cons_state
     \<Rightarrow> outcome \<times> cons_state" where
  "consoleread_loop kd ok user_dst dst n target s =
     (if 0 < n then
        (if cons_r s = cons_w s then
           (if kd then (Returned (- 1), s)
            else (Sleeping user_dst dst n target, s))
         else
           (let c = uint (cons_buf s ! (unat (cons_r s) mod INPUT_BUF_SIZE));
                s1 = s\<lparr>cons_r := cons_r s + 1\<rparr>
            in if c = C 68 then
                 (if n < target
                  then (Returned (target - n), s1\<lparr>cons_r := cons_r s1 - 1\<rparr>)
                  else (Returned (target - n), s1))
               else if \<not> ok user_dst dst then (Returned (target - n), s1)
               else
                 (let s2 = emit [Copyout dst (word_of_int c)] s1
                  in if c = 10 then (Returned (target - (n - 1)), s2)
                     else consoleread_loop kd ok user_dst (dst + 1) (n - 1) target s2)))
      else (Returned (target - n), s))"
  by pat_completeness auto
termination
  by (relation "measure (\<lambda>(kd, ok, user_dst, dst, n, target, s). nat n)") auto

declare consoleread_loop.simps [simp del]

definition consoleread ::
  "bool \<Rightarrow> (int \<Rightarrow> 64 word \<Rightarrow> bool) \<Rightarrow> int \<Rightarrow> 64 word \<Rightarrow> int \<Rightarrow> cons_state
     \<Rightarrow> outcome \<times> cons_state" where
  "consoleread kd ok user_dst dst n s = consoleread_loop kd ok user_dst dst n n s"


section \<open>Runs, reachable states and what a read delivers\<close>

text \<open>
  The uart interrupt hands the received characters to \<open>consoleintr\<close> one at a
  time; \<open>feed\<close> is that, for a list of characters.
\<close>

definition feed :: "int list \<Rightarrow> cons_state \<Rightarrow> cons_state" where
  "feed cs s = fold consoleintr cs s"

text \<open>What \<open>consputc\<close> sends to the uart for one character.\<close>

definition echo :: "int \<Rightarrow> event list" where
  "echo c = (if c = BACKSPACE then [Uartputc_sync 8, Uartputc_sync 32, Uartputc_sync 8]
             else [Uartputc_sync c])"

text \<open>
  A plain character: not NUL, none of the four codes with a \<open>case\<close> of their own,
  and neither carriage return, newline nor control-D.
\<close>

definition plain :: "int \<Rightarrow> bool" where
  "plain c \<longleftrightarrow> c \<noteq> 0 \<and> c \<notin> {C 80, C 85, C 72, 127, 13, 10, C 68}"

text \<open>
  The states the console can be in: start from the zeroed \<open>cons\<close> and run
  \<open>consoleintr\<close> on any character, or one atomic stretch of \<open>consoleread\<close>, fresh
  or resumed after \<open>sleep\<close>, with any local variables and any answers from
  \<open>killed\<close> and \<open>either_copyout\<close>.
\<close>

inductive reachable :: "cons_state \<Rightarrow> bool" where
  init: "reachable cons_init"
| intr: "reachable s \<Longrightarrow> reachable (consoleintr c s)"
| read: "reachable s \<Longrightarrow> reachable (snd (consoleread_loop kd ok user_dst dst n target s))"

text \<open>The cursor distances, computed as the code computes them (modulo \<open>2^32\<close>).\<close>

definition ring_inv :: "cons_state \<Rightarrow> bool" where
  "ring_inv s \<longleftrightarrow>
     cons_w s - cons_r s \<le> cons_e s - cons_r s \<and> cons_e s - cons_r s \<le> 128"

text \<open>
  One newline typed and read back by a one byte \<open>consoleread\<close>; and the state after
  \<open>2^32 - 1\<close> such rounds followed by one more newline.
\<close>

definition newline_cycle :: "cons_state \<Rightarrow> cons_state" where
  "newline_cycle s = snd (consoleread False (\<lambda>u a. True) 0 0 1 (consoleintr 10 s))"

definition wrapped_state :: cons_state where
  "wrapped_state = consoleintr 10 ((newline_cycle ^^ 4294967295) cons_init)"

text \<open>The ring after 128 characters \<open>a\<close> were typed and none was read.\<close>

definition full_ring :: cons_state where
  "full_ring = feed (replicate 128 97) cons_init"

text \<open>
  The bytes a stretch of \<open>consoleread\<close> copied out: the \<open>Copyout\<close> events it added
  to the trace, in order.
\<close>

fun copied :: "event list \<Rightarrow> 8 word list" where
  "copied [] = []"
| "copied (Copyout a b # es) = b # copied es"
| "copied (ev # es) = copied es"

definition delivered :: "cons_state \<Rightarrow> cons_state \<Rightarrow> 8 word list" where
  "delivered s s' = copied (drop (length (trace s)) (trace s'))"

text \<open>
  A call of \<open>consoleread\<close> from its first stretch to some later point: either one
  stretch, or a stretch that ends in \<open>sleep\<close>, after which the state may have
  changed in any way before the call goes on with its saved local variables.
  \<open>read_run user_dst dst n target s bs out s'\<close>: started in \<open>s\<close>, the call has
  copied out the bytes \<open>bs\<close> and stands at outcome \<open>out\<close> in state \<open>s'\<close>.
\<close>

inductive read_run ::
  "int \<Rightarrow> 64 word \<Rightarrow> int \<Rightarrow> int \<Rightarrow> cons_state \<Rightarrow> 8 word list \<Rightarrow> outcome \<Rightarrow> cons_state
     \<Rightarrow> bool" where
  seg: "consoleread_loop kd ok user_dst dst n target s = (out, s') \<Longrightarrow>
        read_run user_dst dst n target s (delivered s s') out s'"
| resume: "consoleread_loop kd ok user_dst dst n target s = (Sleeping ud' dst' n' tg', s1) \<Longrightarrow>
        read_run ud' dst' n' tg' s2 bs out s' \<Longrightarrow>
        read_run user_dst dst n target s (delivered s s1 @ bs) out s'"

section \<open>Properties\<close>

subsection \<open>What a sleeping reader has saved\<close>

lemma sleeping_locals:
  "consoleread_loop kd ok ud dst n tg s = (Sleeping ud' dst' n' tg', s') \<Longrightarrow>
     0 < n' \<and> cons_r s' = cons_w s' \<and> \<not> kd \<and> ud' = ud \<and> tg' = tg"
proof (induction kd ok ud dst n tg s rule: consoleread_loop.induct)
  case (1 kd ok user_dst dst n target s)
  show ?case
    using "1.prems" "1.IH"
    by (subst (asm) consoleread_loop.simps) (auto simp: Let_def split: if_splits)
qed

subsection \<open>Cancellation\<close>

text \<open>
  Claim C7.  A reader that finds no committed data (\<open>cons.r == cons.w\<close>) while its
  process is killed returns \<open>-1\<close> at once and leaves the whole state (buffer,
  the three cursors, and everything emitted so far) as it was.  This holds for a
  fresh call asking for at least one byte, and for a reader that went to sleep
  earlier and is resumed with its saved local variables.
\<close>

theorem consoleread_killed:
  assumes empty: "cons_r s = cons_w s"
  shows "(0 < n \<longrightarrow> consoleread True ok user_dst dst n s = (Returned (- 1), s)) \<and>
         (consoleread_loop kd0 ok0 ud0 dst0 n0 tg0 s0 = (Sleeping ud1 dst1 n1 tg1, s1) \<longrightarrow>
            consoleread_loop True ok ud1 dst1 n1 tg1 s = (Returned (- 1), s))"
proof (intro conjI impI)
  assume "0 < n"
  with empty show "consoleread True ok user_dst dst n s = (Returned (- 1), s)"
    by (simp add: consoleread_def consoleread_loop.simps)
next
  assume "consoleread_loop kd0 ok0 ud0 dst0 n0 tg0 s0 = (Sleeping ud1 dst1 n1 tg1, s1)"
  then have "0 < n1"
    by (simp add: sleeping_locals)
  with empty show "consoleread_loop True ok ud1 dst1 n1 tg1 s = (Returned (- 1), s)"
    by (simp add: consoleread_loop.simps)
qed

theorem consoleread_killed_witness:
  "cons_r cons_init = cons_w cons_init \<and> (0::int) < 10 \<and>
   consoleread True (\<lambda>u a. True) 1 4096 10 cons_init = (Returned (- 1), cons_init) \<and>
   consoleread_loop False (\<lambda>u a. True) 1 4096 10 10 cons_init
     = (Sleeping 1 4096 10 10, cons_init) \<and>
   consoleread_loop True (\<lambda>u a. True) 1 4096 10 10 cons_init = (Returned (- 1), cons_init)"
proof -
  have e: "cons_r cons_init = cons_w cons_init"
    by (simp add: cons_init_def)
  have sl: "consoleread_loop False (\<lambda>u a. True) 1 4096 10 10 cons_init
     = (Sleeping 1 4096 10 10, cons_init)"
    by (simp add: consoleread_loop.simps cons_init_def)
  from consoleread_killed [OF e, of 10 "\<lambda>u a. True" 1 4096 False "\<lambda>u a. True" 1 4096 10 10
      cons_init 1 4096 10 10 cons_init] e sl
  show ?thesis by simp
qed

subsection \<open>The NUL byte\<close>

text \<open>
  Claim C9.  \<open>consoleintr(0)\<close> changes nothing: no echo, no store, no commit, no
  wakeup, whatever the state.  Every other character that reaches the default
  branch is accepted whenever there is room (\<open>cons.e - cons.r < 128\<close>): it is
  echoed (a carriage return as a newline), \<open>cons.e\<close> advances, and more is
  emitted after the echo.
\<close>

theorem consoleintr_nul:
  "consoleintr 0 s = s \<and>
   (c \<noteq> 0 \<longrightarrow> c \<notin> {C 80, C 85, C 72, 127} \<longrightarrow> cons_e s - cons_r s < 128 \<longrightarrow>
      cons_e (consoleintr c s) = cons_e s + 1 \<and>
      (\<exists>es. trace (consoleintr c s) =
              trace (consputc (if c = 13 then 10 else c) s) @ es \<and> es \<noteq> []))"
  by (simp add: consoleintr_def C_def consputc_def BACKSPACE_def emit_def Let_def)

theorem consoleintr_nul_witness:
  "consoleintr 0 cons_init = cons_init \<and> (97::int) \<noteq> 0 \<and> 97 \<notin> {C 80, C 85, C 72, 127} \<and>
   cons_e cons_init - cons_r cons_init < 128 \<and>
   cons_e (consoleintr 97 cons_init) = cons_e cons_init + 1 \<and>
   (\<exists>es. trace (consoleintr 97 cons_init) = trace (consputc 97 cons_init) @ es \<and> es \<noteq> [])"
  using consoleintr_nul [of cons_init 97]
  by (simp add: cons_init_def C_def)

subsection \<open>Word arithmetic on cursor distances\<close>

lemma word_append:
  fixes a b :: "32 word"
  assumes "a \<le> b" "b < 128"
  shows "a \<le> b + 1 \<and> b + 1 \<le> 128"
proof -
  from assms(2) have b: "unat b < 128"
    by (simp add: word_less_nat_alt)
  then have s: "unat (b + 1) = unat b + 1"
    by (simp add: unat_word_ariths)
  from assms(1) b show ?thesis
    by (simp add: word_le_nat_alt s)
qed

lemma word_erase:
  fixes a b :: "32 word"
  assumes "a \<le> b" "b \<le> 128" "a \<noteq> b"
  shows "a \<le> b - 1 \<and> b - 1 \<le> 128"
proof -
  from assms(1,3) have "b \<noteq> 0"
    by auto
  then have s: "unat (b - 1) = unat b - 1"
    by (rule unat_minus_one)
  from assms have "unat a < unat b"
    by (simp add: word_le_nat_alt word_unat_eq_iff)
  with assms(2) show ?thesis
    by (simp add: word_le_nat_alt s) arith
qed

lemma word_pop:
  fixes a b :: "32 word"
  assumes "a \<le> b" "b \<le> 128" "a \<noteq> 0"
  shows "a - 1 \<le> b - 1 \<and> b - 1 \<le> 128"
proof -
  from assms(1,3) have "b \<noteq> 0"
    by auto
  then have sb: "unat (b - 1) = unat b - 1"
    by (rule unat_minus_one)
  from assms(3) have sa: "unat (a - 1) = unat a - 1"
    by (rule unat_minus_one)
  from assms(1,2) show ?thesis
    by (simp add: word_le_nat_alt sa sb) arith
qed

lemma word_chain:
  fixes r w e :: "32 word"
  assumes "w - r \<le> e - r" "e - r \<le> 128" "r \<le> - 129"
  shows "r \<le> w \<and> w \<le> e \<and> e \<le> r + 128"
proof -
  from assms(3) have r: "unat r + 128 < 2 ^ 32"
    by (simp add: word_le_nat_alt)
  from assms(1,2) have d: "unat (w - r) \<le> unat (e - r)" "unat (e - r) \<le> 128"
    by (simp_all add: word_le_nat_alt)
  have w: "unat w = unat r + unat (w - r)"
    using r d unat_add_lem [of r "w - r"] by simp
  have e: "unat e = unat r + unat (e - r)"
    using r d unat_add_lem [of r "e - r"] by simp
  have p: "unat (r + 128) = unat r + 128"
    using r unat_add_lem [of r 128] by simp
  show ?thesis
    using d by (simp add: word_le_nat_alt w e p)
qed

subsection \<open>The accepted character\<close>

lemma trace_consputc: "trace (consputc c s) = trace s @ echo c"
  by (simp add: consputc_def echo_def emit_def)

lemma consoleintr_accept:
  assumes "c \<notin> {C 80, C 85, C 72, 127}" and "c \<noteq> 0" and "cons_e s - cons_r s < 128"
  shows "consoleintr c s =
     s\<lparr>cons_buf := (cons_buf s)[unat (cons_e s) mod 128 := word_of_int (if c = 13 then 10 else c)],
       cons_w := (if c = 13 \<or> c = 10 \<or> c = C 68 \<or> cons_e s + 1 - cons_r s = 128
                  then cons_e s + 1 else cons_w s),
       cons_e := cons_e s + 1,
       trace := trace s @ echo (if c = 13 then 10 else c) @
          Store (unat (cons_e s) mod 128) (word_of_int (if c = 13 then 10 else c)) #
          (if c = 13 \<or> c = 10 \<or> c = C 68 \<or> cons_e s + 1 - cons_r s = 128
           then [Wakeup] else [])\<rparr>"
  using assms
  by (simp add: consoleintr_def C_def consputc_def echo_def BACKSPACE_def emit_def Let_def
      INPUT_BUF_SIZE_def)

lemma consoleintr_reject:
  assumes "c \<notin> {C 80, C 85, C 72, 127}" and "\<not> (c \<noteq> 0 \<and> cons_e s - cons_r s < 128)"
  shows "consoleintr c s = s"
  using assms by (auto simp: consoleintr_def C_def)

subsection \<open>The cursor invariant\<close>

lemma ring_inv_emit [simp]: "ring_inv (emit es s) = ring_inv s"
  by (simp add: ring_inv_def emit_def)

lemma ring_inv_consputc [simp]: "ring_inv (consputc c s) = ring_inv s"
  by (simp add: consputc_def)

lemma ring_inv_erase:
  assumes "ring_inv s" "cons_e s \<noteq> cons_w s"
  shows "ring_inv (s\<lparr>cons_e := cons_e s - 1\<rparr>)"
proof -
  from assms(1) have a: "cons_w s - cons_r s \<le> cons_e s - cons_r s"
    and b: "cons_e s - cons_r s \<le> 128"
    by (simp_all add: ring_inv_def)
  have ne: "cons_w s - cons_r s \<noteq> cons_e s - cons_r s"
    using assms(2) by simp
  have eq: "cons_e s - 1 - cons_r s = (cons_e s - cons_r s) - 1"
    by simp
  from word_erase [OF a b ne] show ?thesis
    unfolding ring_inv_def by (simp add: eq)
qed

lemma ring_inv_kill_line: "ring_inv s \<Longrightarrow> ring_inv (kill_line s)"
proof (induction s rule: kill_line.induct)
  case (1 s)
  show ?case
  proof (cases "cons_e s \<noteq> cons_w s \<and>
         cons_buf s ! (unat (cons_e s - 1) mod INPUT_BUF_SIZE) \<noteq> 10")
    case True
    with "1.prems" have "ring_inv (consputc BACKSPACE (s\<lparr>cons_e := cons_e s - 1\<rparr>))"
      by (simp add: ring_inv_erase)
    with True "1.IH" show ?thesis
      by (subst kill_line.simps) simp
  next
    case False
    with "1.prems" show ?thesis
      by (subst kill_line.simps) auto
  qed
qed

lemma ring_inv_consoleintr: "ring_inv s \<Longrightarrow> ring_inv (consoleintr c s)"
proof -
  assume inv: "ring_inv s"
  consider (dump) "c = C 80" | (kill) "c = C 85" | (bs) "c = C 72 \<or> c = 127"
    | (acc) "c \<notin> {C 80, C 85, C 72, 127}" "c \<noteq> 0" "cons_e s - cons_r s < 128"
    | (rej) "c \<notin> {C 80, C 85, C 72, 127}" "\<not> (c \<noteq> 0 \<and> cons_e s - cons_r s < 128)"
    by blast
  then show ?thesis
  proof cases
    case dump
    with inv show ?thesis by (simp add: consoleintr_def)
  next
    case kill
    with inv show ?thesis by (simp add: consoleintr_def C_def ring_inv_kill_line)
  next
    case bs
    with inv show ?thesis by (auto simp: consoleintr_def C_def ring_inv_erase)
  next
    case acc
    from inv have a: "cons_w s - cons_r s \<le> cons_e s - cons_r s"
      by (simp add: ring_inv_def)
    have eq: "cons_e s + 1 - cons_r s = (cons_e s - cons_r s) + 1"
      by simp
    from word_append [OF a acc(3)] show ?thesis
      unfolding consoleintr_accept [OF acc] ring_inv_def by (simp add: eq)
  next
    case rej
    with inv show ?thesis by (auto simp: consoleintr_def C_def)
  qed
qed

lemma ring_inv_pop:
  assumes "ring_inv s" "cons_r s \<noteq> cons_w s"
  shows "ring_inv (s\<lparr>cons_r := cons_r s + 1\<rparr>)"
proof -
  from assms(1) have a: "cons_w s - cons_r s \<le> cons_e s - cons_r s"
    and b: "cons_e s - cons_r s \<le> 128"
    by (simp_all add: ring_inv_def)
  have nz: "cons_w s - cons_r s \<noteq> 0"
    using assms(2) by simp
  have eq: "cons_w s - (cons_r s + 1) = (cons_w s - cons_r s) - 1"
    "cons_e s - (cons_r s + 1) = (cons_e s - cons_r s) - 1"
    by simp_all
  from word_pop [OF a b nz] show ?thesis
    unfolding ring_inv_def by (simp add: eq)
qed

lemma ring_inv_consoleread_loop:
  "ring_inv s \<Longrightarrow> ring_inv (snd (consoleread_loop kd ok user_dst dst n target s))"
proof (induction kd ok user_dst dst n target s rule: consoleread_loop.induct)
  case (1 kd ok user_dst dst n target s)
  show ?case
  proof (cases "0 < n \<and> cons_r s \<noteq> cons_w s")
    case False
    with "1.prems" show ?thesis
      by (subst consoleread_loop.simps) auto
  next
    case True
    let ?c = "uint (cons_buf s ! (unat (cons_r s) mod INPUT_BUF_SIZE))"
    let ?s1 = "s\<lparr>cons_r := cons_r s + 1\<rparr>"
    let ?s2 = "emit [Copyout dst (word_of_int ?c)] ?s1"
    from True "1.prems" have s1: "ring_inv ?s1"
      by (simp add: ring_inv_pop)
    show ?thesis
    proof (cases "?c \<noteq> C 68 \<and> ok user_dst dst \<and> ?c \<noteq> 10")
      case False
      with True s1 "1.prems" show ?thesis
        by (subst consoleread_loop.simps) (auto simp: Let_def)
    next
      case go: True
      have "ring_inv (snd (consoleread_loop kd ok user_dst (dst + 1) (n - 1) target ?s2))"
        using "1.IH" [OF _ _ refl refl _ _ refl] True go s1 by simp
      with True go show ?thesis
        by (subst consoleread_loop.simps) (simp add: Let_def)
    qed
  qed
qed

lemma reachable_ring_inv: "reachable s \<Longrightarrow> ring_inv s"
proof (induction rule: reachable.induct)
  case init
  show ?case by (simp add: ring_inv_def cons_init_def)
next
  case (intr s c)
  then show ?case by (simp add: ring_inv_consoleintr)
next
  case (read s kd ok user_dst dst n target)
  then show ?case by (simp add: ring_inv_consoleread_loop)
qed

lemma read_one_cursors:
  assumes "cons_r s \<noteq> cons_w s"
  shows "cons_r (snd (consoleread_loop kd ok ud dst 1 1 s)) = cons_r s + 1 \<and>
         cons_w (snd (consoleread_loop kd ok ud dst 1 1 s)) = cons_w s \<and>
         cons_e (snd (consoleread_loop kd ok ud dst 1 1 s)) = cons_e s"
  using assms
  apply (subst (1 2 3) consoleread_loop.simps)
  apply (simp add: Let_def emit_def)
  apply (subst (1 2 3) consoleread_loop.simps)
  apply (simp add: Let_def emit_def)
  done

lemma newline_cursors:
  assumes "cons_e s = cons_r s"
  shows "cons_r (consoleintr 10 s) = cons_r s \<and> cons_w (consoleintr 10 s) = cons_r s + 1 \<and>
         cons_e (consoleintr 10 s) = cons_r s + 1"
proof -
  have "consoleintr 10 s = s\<lparr>cons_buf := (cons_buf s)[unat (cons_e s) mod 128 := 10],
       cons_w := cons_e s + 1, cons_e := cons_e s + 1,
       trace := trace s @ echo 10 @ [Store (unat (cons_e s) mod 128) 10, Wakeup]\<rparr>"
    using consoleintr_accept [of 10 s] assms by (simp add: C_def)
  then show ?thesis using assms by simp
qed

lemma newline_cycle_cursors:
  assumes "cons_w s = cons_r s" "cons_e s = cons_r s"
  shows "cons_r (newline_cycle s) = cons_r s + 1 \<and> cons_w (newline_cycle s) = cons_r s + 1 \<and>
         cons_e (newline_cycle s) = cons_r s + 1"
proof -
  from newline_cursors [OF assms(2)]
  have c: "cons_r (consoleintr 10 s) = cons_r s" "cons_w (consoleintr 10 s) = cons_r s + 1"
      "cons_e (consoleintr 10 s) = cons_r s + 1"
    by simp_all
  then have "cons_r (consoleintr 10 s) \<noteq> cons_w (consoleintr 10 s)"
    by simp
  from read_one_cursors [OF this] c show ?thesis
    by (simp add: newline_cycle_def consoleread_def)
qed

lemma newline_cycles:
  "cons_r ((newline_cycle ^^ k) cons_init) = of_nat k \<and>
   cons_w ((newline_cycle ^^ k) cons_init) = of_nat k \<and>
   cons_e ((newline_cycle ^^ k) cons_init) = of_nat k"
proof (induction k)
  case 0
  show ?case by (simp add: cons_init_def)
next
  case (Suc k)
  with newline_cycle_cursors [of "(newline_cycle ^^ k) cons_init"]
  show ?case by (simp add: add.commute)
qed

lemma reachable_newline_cycles: "reachable ((newline_cycle ^^ k) cons_init)"
proof (induction k)
  case 0
  show ?case by (simp add: reachable.init)
next
  case (Suc k)
  then show ?case
    by (simp add: newline_cycle_def consoleread_def reachable.intr reachable.read)
qed

text \<open>
  Against claim C1 as stated.  The cursors are 32 bit and wrap.  After \<open>2^32 - 1\<close>
  rounds of typing a newline and reading it back, all three cursors stand at
  \<open>2^32 - 1\<close>; one more newline moves \<open>cons.e\<close> and \<open>cons.w\<close> to 0 while
  \<open>cons.r\<close> stays, so \<open>cons.r \<le> cons.w\<close> fails in a reachable state.
\<close>

theorem cursor_order_counterexample:
  "reachable wrapped_state \<and>
   \<not> (cons_r wrapped_state \<le> cons_w wrapped_state \<and>
      cons_w wrapped_state \<le> cons_e wrapped_state \<and>
      cons_e wrapped_state \<le> cons_r wrapped_state + 128)"
proof -
  let ?s = "(newline_cycle ^^ 4294967295) cons_init"
  have cur: "cons_r ?s = 4294967295" "cons_e ?s = cons_r ?s"
    using newline_cycles [of 4294967295] by simp_all
  from newline_cursors [OF cur(2)]
  have "cons_r wrapped_state = 4294967295" "cons_w wrapped_state = 0"
    by (simp_all add: wrapped_state_def cur(1))
  moreover have "reachable wrapped_state"
    unfolding wrapped_state_def by (rule reachable.intr [OF reachable_newline_cycles])
  ultimately show ?thesis by simp
qed

text \<open>
  Claim C1, amended.  In every reachable state the cursor distances, computed
  modulo \<open>2^32\<close> as the code computes them, satisfy
  \<open>cons.w - cons.r \<le> cons.e - cons.r \<le> INPUT_BUF_SIZE\<close>.  As long as
  \<open>cons.r + INPUT_BUF_SIZE\<close> does not wrap, this is the chain
  \<open>cons.r \<le> cons.w \<le> cons.e \<le> cons.r + INPUT_BUF_SIZE\<close> of the claim.
\<close>

theorem cursor_invariant:
  assumes "reachable s"
  shows "cons_w s - cons_r s \<le> cons_e s - cons_r s \<and> cons_e s - cons_r s \<le> 128 \<and>
         (unat (cons_r s) + 128 < 2 ^ 32 \<longrightarrow>
            cons_r s \<le> cons_w s \<and> cons_w s \<le> cons_e s \<and> cons_e s \<le> cons_r s + 128)"
proof -
  from reachable_ring_inv [OF assms]
  have d: "cons_w s - cons_r s \<le> cons_e s - cons_r s" "cons_e s - cons_r s \<le> 128"
    by (simp_all add: ring_inv_def)
  have "cons_r s \<le> - 129" if "unat (cons_r s) + 128 < 2 ^ 32"
    using that by (simp add: word_le_nat_alt)
  with d word_chain [OF d] show ?thesis by blast
qed

theorem cursor_invariant_witness:
  "reachable (feed [97, 98] cons_init) \<and>
   cons_w (feed [97, 98] cons_init) - cons_r (feed [97, 98] cons_init)
     \<le> cons_e (feed [97, 98] cons_init) - cons_r (feed [97, 98] cons_init) \<and>
   cons_e (feed [97, 98] cons_init) - cons_r (feed [97, 98] cons_init) \<le> 128 \<and>
   unat (cons_r (feed [97, 98] cons_init)) + 128 < 2 ^ 32 \<and>
   cons_r (feed [97, 98] cons_init) \<le> cons_w (feed [97, 98] cons_init) \<and>
   cons_w (feed [97, 98] cons_init) \<le> cons_e (feed [97, 98] cons_init) \<and>
   cons_e (feed [97, 98] cons_init) \<le> cons_r (feed [97, 98] cons_init) + 128"
proof -
  have re: "reachable (feed [97, 98] cons_init)"
    unfolding feed_def by (simp add: reachable.intr reachable.init)
  have r: "unat (cons_r (feed [97, 98] cons_init)) + 128 < 2 ^ 32"
    by (simp add: feed_def consoleintr_def C_def consputc_def BACKSPACE_def emit_def Let_def
        cons_init_def)
  from cursor_invariant [OF re] re r show ?thesis
    by blast
qed

subsection \<open>One line per read\<close>

lemma consoleread_loop_trace:
  "\<exists>es. trace (snd (consoleread_loop kd ok user_dst dst n target s)) = trace s @ es \<and>
        10 \<notin> set (butlast (copied es)) \<and>
        (10 \<in> set (copied es) \<longrightarrow>
           (\<exists>v. fst (consoleread_loop kd ok user_dst dst n target s) = Returned v))"
proof (induction kd ok user_dst dst n target s rule: consoleread_loop.induct)
  case (1 kd ok user_dst dst n target s)
  let ?b = "cons_buf s ! (unat (cons_r s) mod INPUT_BUF_SIZE)"
  let ?c = "uint ?b"
  let ?s1 = "s\<lparr>cons_r := cons_r s + 1\<rparr>"
  let ?s2 = "emit [Copyout dst (word_of_int ?c)] ?s1"
  show ?case
  proof (cases "0 < n \<and> cons_r s \<noteq> cons_w s \<and> ?c \<noteq> C 68 \<and> ok user_dst dst")
    case False
    then show ?thesis
      by (subst (1 2) consoleread_loop.simps) (auto simp: Let_def)
  next
    case True
    show ?thesis
    proof (cases "?c = 10")
      case nl: True
      then have "?b = 10"
        by (metis word_of_int_uint word_of_int_numeral)
      with True nl show ?thesis
        by (subst (1 2) consoleread_loop.simps) (simp add: Let_def emit_def C_def)
    next
      case False
      then have b: "?b \<noteq> 10"
        by auto
      let ?L = "consoleread_loop kd ok user_dst (dst + 1) (n - 1) target ?s2"
      have unf: "consoleread_loop kd ok user_dst dst n target s = ?L"
        using True False by (subst consoleread_loop.simps) (simp add: Let_def)
      from "1.IH" [OF _ _ refl refl _ _ refl] True False
      obtain es where es: "trace (snd ?L) = trace ?s2 @ es"
        "10 \<notin> set (butlast (copied es))"
        "10 \<in> set (copied es) \<longrightarrow> (\<exists>v. fst ?L = Returned v)"
        by auto
      have "trace (snd ?L) = trace s @ (Copyout dst ?b # es)"
        using es(1) by (simp add: emit_def)
      moreover have "10 \<notin> set (butlast (copied (Copyout dst ?b # es)))"
        using es(2) b by simp
      moreover have "10 \<in> set (copied (Copyout dst ?b # es)) \<longrightarrow> (\<exists>v. fst ?L = Returned v)"
        using es(3) b by simp
      ultimately show ?thesis
        unfolding unf by blast
    qed
  qed
qed

lemma delivered_segment:
  assumes "consoleread_loop kd ok user_dst dst n target s = (out, s')"
  shows "10 \<notin> set (butlast (delivered s s')) \<and>
         (10 \<in> set (delivered s s') \<longrightarrow> (\<exists>v. out = Returned v))"
proof -
  from consoleread_loop_trace [of kd ok user_dst dst n target s] assms
  obtain es where "trace s' = trace s @ es" "10 \<notin> set (butlast (copied es))"
    "10 \<in> set (copied es) \<longrightarrow> (\<exists>v. out = Returned v)"
    by auto
  then show ?thesis
    by (simp add: delivered_def)
qed

text \<open>
  Claim C8.  In the bytes one call of \<open>consoleread\<close> copies out, over all its
  stretches, a newline can only be the last byte: nothing is delivered after it.
  Once a newline has been copied out the call has returned (it is not asleep
  waiting for more), however large the requested length.
\<close>

theorem read_one_line:
  assumes "read_run user_dst dst n target s bs out s'"
  shows "10 \<notin> set (butlast bs) \<and> (10 \<in> set bs \<longrightarrow> (\<exists>v. out = Returned v))"
  using assms
proof (induction rule: read_run.induct)
  case (seg kd ok user_dst dst n target s out s')
  then show ?case by (rule delivered_segment)
next
  case (resume kd ok user_dst dst n target s ud' dst' n' tg' s1 s2 bs out s')
  from delivered_segment [OF resume.hyps(1)]
  have "10 \<notin> set (delivered s s1)"
    by auto
  with resume.IH show ?case
    by (auto simp: butlast_append dest: in_set_butlastD)
qed

lemmas intr_eval = consoleintr_def C_def consputc_def BACKSPACE_def emit_def Let_def
  INPUT_BUF_SIZE_def cons_init_def feed_def

lemmas read_eval = Let_def C_def INPUT_BUF_SIZE_def emit_def

lemma feed_two_lines: "feed [97, 10, 98, 10] cons_init =
  \<lparr>cons_buf = (replicate 128 0)[0 := 97, Suc 0 := 10, 2 := 98, 3 := 10],
   cons_r = 0, cons_w = 4, cons_e = 4,
   trace = [Uartputc_sync 97, Store 0 97, Uartputc_sync 10, Store 1 10, Wakeup,
            Uartputc_sync 98, Store 2 98, Uartputc_sync 10, Store 3 10, Wakeup]\<rparr>"
  by (simp add: intr_eval)

text \<open>
  Two lines \<open>a\<close> and \<open>b\<close> are committed; a read of up to 10 bytes delivers the
  first line only and leaves the second in the ring.
\<close>

theorem read_one_line_witness:
  "read_run 1 4096 10 10 (feed [97, 10, 98, 10] cons_init) [97, 10] (Returned 2)
     ((feed [97, 10, 98, 10] cons_init)\<lparr>cons_r := 2,
        trace := trace (feed [97, 10, 98, 10] cons_init) @ [Copyout 4096 97, Copyout 4097 10]\<rparr>) \<and>
   (10 :: 8 word) \<notin> set (butlast [97, 10]) \<and> (10 :: 8 word) \<in> set [97, 10] \<and>
   (\<exists>v. Returned 2 = Returned v)"
proof -
  let ?s = "feed [97, 10, 98, 10] cons_init"
  let ?s' = "?s\<lparr>cons_r := 2, trace := trace ?s @ [Copyout 4096 97, Copyout 4097 10]\<rparr>"
  have run: "consoleread_loop False (\<lambda>u a. True) 1 4096 10 10 ?s = (Returned 2, ?s')"
    unfolding feed_two_lines
    apply (subst consoleread_loop.simps)
    apply (simp add: read_eval)
    apply (subst consoleread_loop.simps)
    apply (simp add: read_eval)
    done
  have d: "delivered ?s ?s' = [97, 10]"
    by (simp add: delivered_def)
  have rr: "read_run 1 4096 10 10 ?s [97, 10] (Returned 2) ?s'"
    using read_run.seg [OF run] unfolding d .
  from read_one_line [OF rr] rr show ?thesis
    by simp
qed

subsection \<open>Round trip of one line\<close>

lemma feed_ab_nl: "feed [97, 98, 10] cons_init =
  \<lparr>cons_buf = (replicate 128 0)[0 := 97, Suc 0 := 98, 2 := 10],
   cons_r = 0, cons_w = 3, cons_e = 3,
   trace = [Uartputc_sync 97, Store 0 97, Uartputc_sync 98, Store 1 98,
            Uartputc_sync 10, Store 2 10, Wakeup]\<rparr>"
  by (simp add: intr_eval)

text \<open>
  Claim C4.  From the empty ring, after \<open>consoleintr\<close> has received \<open>a\<close>, \<open>b\<close> and
  newline, a \<open>consoleread\<close> asking for at least 3 bytes (the three copies
  succeeding) returns 3 and has copied out exactly \<open>a\<close>, \<open>b\<close>, newline, to
  \<open>dst\<close>, \<open>dst + 1\<close> and \<open>dst + 2\<close>; the ring is drained.
\<close>

theorem roundtrip:
  assumes n: "3 \<le> n"
    and ok: "ok user_dst dst" "ok user_dst (dst + 1)" "ok user_dst (dst + 2)"
  shows "consoleread kd ok user_dst dst n (feed [97, 98, 10] cons_init) =
     (Returned 3, (feed [97, 98, 10] cons_init)\<lparr>cons_r := 3,
        trace := trace (feed [97, 98, 10] cons_init) @
         [Copyout dst 97, Copyout (dst + 1) 98, Copyout (dst + 2) 10]\<rparr>)"
proof -
  have ok2: "ok user_dst (2 + dst)"
    using ok(3) by (simp add: add.commute)
  show ?thesis
    unfolding feed_ab_nl consoleread_def
    using n ok(1,2) ok2
    apply (subst consoleread_loop.simps)
    apply (simp add: read_eval)
    apply (subst consoleread_loop.simps)
    apply (simp add: read_eval)
    apply (subst consoleread_loop.simps)
    apply (simp add: read_eval)
    done
qed

theorem roundtrip_witness:
  "(3::int) \<le> 5 \<and>
   consoleread False (\<lambda>u a. True) 1 4096 5 (feed [97, 98, 10] cons_init) =
     (Returned 3, (feed [97, 98, 10] cons_init)\<lparr>cons_r := 3,
        trace := trace (feed [97, 98, 10] cons_init) @
         [Copyout 4096 97, Copyout 4097 98, Copyout 4098 10]\<rparr>)"
  using roundtrip [of 5 "\<lambda>u a. True" 1 4096 False]
  by simp

subsection \<open>End of file\<close>

lemma feed_ab_eof: "feed [97, 98, C 68] cons_init =
  \<lparr>cons_buf = (replicate 128 0)[0 := 97, Suc 0 := 98, 2 := 4],
   cons_r = 0, cons_w = 3, cons_e = 3,
   trace = [Uartputc_sync 97, Store 0 97, Uartputc_sync 98, Store 1 98,
            Uartputc_sync 4, Store 2 4, Wakeup]\<rparr>"
  by (simp add: intr_eval)

text \<open>
  Claim C3.  From the empty ring, after \<open>a\<close>, \<open>b\<close> and control-D, a first
  \<open>consoleread\<close> asking for at least 10 bytes returns 2, having copied out \<open>a\<close>
  and \<open>b\<close>; the control-D is put back (\<open>cons.r\<close> is 2, one short of \<open>cons.w\<close>).
  A second \<open>consoleread\<close> asking for at least 10 bytes returns 0, copies nothing
  and consumes the control-D (\<open>cons.r\<close> becomes 3).
\<close>

theorem eof_pairing:
  assumes n: "10 \<le> n" "10 \<le> m"
    and ok: "ok user_dst dst" "ok user_dst (dst + 1)"
  shows "consoleread kd ok user_dst dst n (feed [97, 98, C 68] cons_init) =
           (Returned 2, (feed [97, 98, C 68] cons_init)\<lparr>cons_r := 2,
              trace := trace (feed [97, 98, C 68] cons_init) @
                 [Copyout dst 97, Copyout (dst + 1) 98]\<rparr>) \<and>
         cons_w (feed [97, 98, C 68] cons_init) = 3 \<and>
         consoleread kd' ok' user_dst' dst' m
             ((feed [97, 98, C 68] cons_init)\<lparr>cons_r := 2,
                trace := trace (feed [97, 98, C 68] cons_init) @
                   [Copyout dst 97, Copyout (dst + 1) 98]\<rparr>) =
           (Returned 0, (feed [97, 98, C 68] cons_init)\<lparr>cons_r := 3,
                trace := trace (feed [97, 98, C 68] cons_init) @
                   [Copyout dst 97, Copyout (dst + 1) 98]\<rparr>)"
proof -
  let ?s0 = "feed [97, 98, C 68] cons_init"
  let ?s1 = "?s0\<lparr>cons_r := 2, trace := trace ?s0 @ [Copyout dst 97, Copyout (dst + 1) 98]\<rparr>"
  have first: "consoleread kd ok user_dst dst n ?s0 = (Returned 2, ?s1)"
    unfolding feed_ab_eof consoleread_def
    using n ok
    apply (subst consoleread_loop.simps)
    apply (simp add: read_eval)
    apply (subst consoleread_loop.simps)
    apply (simp add: read_eval)
    apply (subst consoleread_loop.simps)
    apply (simp add: read_eval)
    done
  have second: "consoleread kd' ok' user_dst' dst' m ?s1 =
      (Returned 0, ?s0\<lparr>cons_r := 3,
          trace := trace ?s0 @ [Copyout dst 97, Copyout (dst + 1) 98]\<rparr>)"
    unfolding feed_ab_eof consoleread_def
    using n
    apply (subst consoleread_loop.simps)
    apply (simp add: read_eval)
    done
  have w: "cons_w ?s0 = 3"
    by (simp add: feed_ab_eof)
  from first w second show ?thesis
    by (intro conjI)
qed

theorem eof_pairing_witness:
  "consoleread False (\<lambda>u a. True) 1 4096 10 (feed [97, 98, C 68] cons_init) =
           (Returned 2, (feed [97, 98, C 68] cons_init)\<lparr>cons_r := 2,
              trace := trace (feed [97, 98, C 68] cons_init) @
                 [Copyout 4096 97, Copyout (4096 + 1) 98]\<rparr>) \<and>
   cons_w (feed [97, 98, C 68] cons_init) = 3 \<and>
   consoleread False (\<lambda>u a. True) 1 8192 12
       ((feed [97, 98, C 68] cons_init)\<lparr>cons_r := 2,
              trace := trace (feed [97, 98, C 68] cons_init) @
                 [Copyout 4096 97, Copyout (4096 + 1) 98]\<rparr>) =
     (Returned 0, (feed [97, 98, C 68] cons_init)\<lparr>cons_r := 3,
              trace := trace (feed [97, 98, C 68] cons_init) @
                 [Copyout 4096 97, Copyout (4096 + 1) 98]\<rparr>)"
  by (rule eof_pairing [OF _ _ TrueI TrueI]) simp_all

subsection \<open>Reading a run of bytes without newline or control-D\<close>

lemma upt_Suc_map: "map f [0..<Suc k] = f 0 # map (\<lambda>i. f (Suc i)) [0..<k]"
proof -
  have "[0..<Suc k] = 0 # map Suc [0..<k]"
    by (simp only: map_Suc_upt upt_conv_Cons [of 0 "Suc k"] zero_less_Suc if_True)
  then show ?thesis
    by (simp only: list.map map_map comp_def)
qed

lemma consoleread_loop_step:
  assumes "0 < n" and "cons_r s \<noteq> cons_w s"
    and "cons_buf s ! (unat (cons_r s) mod 128) \<notin> {4, 10}"
    and "ok user_dst dst"
  shows "consoleread_loop kd ok user_dst dst n target s =
         consoleread_loop kd ok user_dst (dst + 1) (n - 1) target
           (s\<lparr>cons_r := cons_r s + 1,
              trace := trace s @ [Copyout dst (cons_buf s ! (unat (cons_r s) mod 128))]\<rparr>)"
proof -
  let ?b = "cons_buf s ! (unat (cons_r s) mod 128)"
  have "uint ?b \<noteq> uint (4 :: 8 word)" "uint ?b \<noteq> uint (10 :: 8 word)"
    using assms(3) by (simp_all only: word_uint_eq_iff [symmetric] insert_iff empty_iff de_Morgan_disj
        simp_thms)
  then have c: "uint ?b \<noteq> 4" "uint ?b \<noteq> 10"
    by simp_all
  show ?thesis
    using assms(1,2,4) c
    by (subst consoleread_loop.simps) (simp add: read_eval)
qed

lemma consoleread_loop_block:
  assumes "int k \<le> n" and "k \<le> unat (cons_w s - cons_r s)"
    and "\<forall>i<k. cons_buf s ! (unat (cons_r s + of_nat i) mod 128) \<notin> {4, 10}"
    and "\<forall>i<k. ok user_dst (dst + of_nat i)"
  shows "consoleread_loop kd ok user_dst dst n target s =
         consoleread_loop kd ok user_dst (dst + of_nat k) (n - int k) target
           (s\<lparr>cons_r := cons_r s + of_nat k,
              trace := trace s @
                map (\<lambda>i. Copyout (dst + of_nat i)
                            (cons_buf s ! (unat (cons_r s + of_nat i) mod 128))) [0..<k]\<rparr>)"
  using assms
proof (induction k arbitrary: s dst n)
  case 0
  show ?case by simp
next
  case (Suc k)
  let ?b = "\<lambda>i. cons_buf s ! (unat (cons_r s + of_nat i) mod 128)"
  let ?s2 = "s\<lparr>cons_r := cons_r s + 1, trace := trace s @ [Copyout dst (?b 0)]\<rparr>"
  from Suc.prems(1) have n: "0 < n" "int k \<le> n - 1"
    by simp_all
  from Suc.prems(2) have nz: "cons_w s - cons_r s \<noteq> 0"
    by (auto simp: unat_eq_zero [symmetric])
  then have ne: "cons_r s \<noteq> cons_w s"
    by auto
  from Suc.prems(3) have b0: "cons_buf s ! (unat (cons_r s) mod 128) \<notin> {4, 10}"
    using Suc.prems(3) [rule_format, of 0] by simp
  from Suc.prems(4) have ok0: "ok user_dst dst"
    using Suc.prems(4) [rule_format, of 0] by simp
  have first: "consoleread_loop kd ok user_dst dst n target s =
      consoleread_loop kd ok user_dst (dst + 1) (n - 1) target ?s2"
    using consoleread_loop_step [of n s ok user_dst dst kd target] n(1) ne b0 ok0 by simp
  have room: "k \<le> unat (cons_w ?s2 - cons_r ?s2)"
  proof -
    have eq: "cons_w s - (cons_r s + 1) = (cons_w s - cons_r s) - 1"
      by simp
    have "unat (cons_w s - (cons_r s + 1)) = unat (cons_w s - cons_r s) - 1"
      unfolding eq by (rule unat_minus_one [OF nz])
    with Suc.prems(2) show ?thesis by simp
  qed
  have bytes: "\<forall>i<k. cons_buf ?s2 ! (unat (cons_r ?s2 + of_nat i) mod 128) \<notin> {4, 10}"
  proof (intro allI impI)
    fix i assume "i < k"
    then have "Suc i < Suc k" by simp
    from Suc.prems(3) [rule_format, OF this] show
      "cons_buf ?s2 ! (unat (cons_r ?s2 + of_nat i) mod 128) \<notin> {4, 10}"
      by (simp add: ac_simps)
  qed
  have oks: "\<forall>i<k. ok user_dst (dst + 1 + of_nat i)"
  proof (intro allI impI)
    fix i assume "i < k"
    then have "Suc i < Suc k" by simp
    from Suc.prems(4) [rule_format, OF this] show "ok user_dst (dst + 1 + of_nat i)"
      by (simp add: ac_simps)
  qed
  have rest: "consoleread_loop kd ok user_dst (dst + 1) (n - 1) target ?s2 =
      consoleread_loop kd ok user_dst (dst + 1 + of_nat k) (n - 1 - int k) target
        (?s2\<lparr>cons_r := cons_r ?s2 + of_nat k,
           trace := trace ?s2 @
             map (\<lambda>i. Copyout (dst + 1 + of_nat i)
                    (cons_buf ?s2 ! (unat (cons_r ?s2 + of_nat i) mod 128))) [0..<k]\<rparr>)"
    by (rule Suc.IH [OF n(2) room bytes oks])
  have st: "?s2\<lparr>cons_r := cons_r ?s2 + of_nat k,
           trace := trace ?s2 @
             map (\<lambda>i. Copyout (dst + 1 + of_nat i)
                    (cons_buf ?s2 ! (unat (cons_r ?s2 + of_nat i) mod 128))) [0..<k]\<rparr> =
        s\<lparr>cons_r := cons_r s + of_nat (Suc k),
          trace := trace s @ map (\<lambda>i. Copyout (dst + of_nat i) (?b i)) [0..<Suc k]\<rparr>"
    unfolding upt_Suc_map [of _ k] by (simp add: ac_simps)
  have args: "dst + 1 + of_nat k = dst + of_nat (Suc k)" "n - 1 - int k = n - int (Suc k)"
    by simp_all
  show ?case
    unfolding first rest st args ..
qed
subsection \<open>Filling the ring with plain characters\<close>

lemma feed_snoc: "feed (cs @ [c]) s = consoleintr c (feed cs s)"
  by (simp add: feed_def)

lemma of_nat_less_128: "k < 128 \<Longrightarrow> (of_nat k :: 32 word) < 128"
  by (simp add: word_less_nat_alt unat_of_nat)

lemma of_nat_Suc_eq_128: "k < 128 \<Longrightarrow> (of_nat k + 1 :: 32 word) = 128 \<longleftrightarrow> k = 127"
proof -
  assume k: "k < 128"
  have "unat (of_nat (Suc k) :: 32 word) = Suc k"
    using k by (simp add: unat_of_nat del: of_nat_Suc)
  then have u: "unat (of_nat k + 1 :: 32 word) = Suc k"
    by (simp add: add.commute)
  show ?thesis
    by (simp add: word_unat_eq_iff u)
qed

lemma consoleintr_plain:
  assumes "plain c" and "cons_e s - cons_r s < 128"
  shows "consoleintr c s =
     s\<lparr>cons_buf := (cons_buf s)[unat (cons_e s) mod 128 := word_of_int c],
       cons_w := (if cons_e s + 1 - cons_r s = 128 then cons_e s + 1 else cons_w s),
       cons_e := cons_e s + 1,
       trace := trace s @ echo c @ Store (unat (cons_e s) mod 128) (word_of_int c) #
          (if cons_e s + 1 - cons_r s = 128 then [Wakeup] else [])\<rparr>"
proof -
  from assms(1) have c: "c \<notin> {C 80, C 85, C 72, 127}" "c \<noteq> 0" "c \<noteq> 13" "c \<noteq> 10" "c \<noteq> C 68"
    by (simp_all add: plain_def)
  show ?thesis
    unfolding consoleintr_accept [OF c(1,2) assms(2)] using c(3,4,5) by simp
qed

lemma Wakeup_notin_echo: "Wakeup \<notin> set (echo c)"
  by (simp add: echo_def)

lemma feed_plain:
  "length cs \<le> 127 \<Longrightarrow> \<forall>c\<in>set cs. plain c \<Longrightarrow>
     cons_r (feed cs cons_init) = 0 \<and> cons_w (feed cs cons_init) = 0 \<and>
     cons_e (feed cs cons_init) = of_nat (length cs) \<and>
     cons_buf (feed cs cons_init) = map word_of_int cs @ replicate (128 - length cs) 0 \<and>
     Wakeup \<notin> set (trace (feed cs cons_init))"
proof (induction cs rule: rev_induct)
  case Nil
  then show ?case by (simp add: feed_def cons_init_def)
next
  case (snoc c cs)
  let ?s = "feed cs cons_init"
  let ?k = "length cs"
  from snoc.prems have k: "?k < 127" and c: "plain c" and cs: "\<forall>c\<in>set cs. plain c"
    by auto
  from snoc.IH k cs have r: "cons_r ?s = 0" and w: "cons_w ?s = 0"
    and e: "cons_e ?s = of_nat ?k"
    and b: "cons_buf ?s = map word_of_int cs @ replicate (128 - ?k) 0"
    and t: "Wakeup \<notin> set (trace ?s)"
    by auto
  have room: "cons_e ?s - cons_r ?s < 128"
    using k by (simp add: r e of_nat_less_128)
  have notfull: "cons_e ?s + 1 - cons_r ?s \<noteq> 128"
    using k by (simp add: r e of_nat_Suc_eq_128)
  have idx: "unat (cons_e ?s) mod 128 = ?k"
    using k by (simp add: e unat_of_nat)
  have rep: "replicate (128 - ?k) (0::8 word) = 0 # replicate (127 - ?k) 0"
    using k by (simp add: Suc_diff_le flip: replicate_Suc)
  have upd: "(map word_of_int cs @ replicate (128 - ?k) (0::8 word))[?k := word_of_int c]
      = map word_of_int (cs @ [c]) @ replicate (128 - length (cs @ [c])) 0"
    unfolding rep by (simp add: list_update_append)
  have step: "feed (cs @ [c]) cons_init =
     ?s\<lparr>cons_buf := (cons_buf ?s)[?k := word_of_int c],
       cons_w := cons_w ?s,
       cons_e := cons_e ?s + 1,
       trace := trace ?s @ echo c @ [Store ?k (word_of_int c)]\<rparr>"
    unfolding feed_snoc consoleintr_plain [OF c room] idx using notfull by simp
  show ?case
    unfolding step using t
    by (simp add: r w e b upd Wakeup_notin_echo)
qed

lemma feed_full:
  assumes "length cs = 127" and "\<forall>c\<in>set cs. plain c" and "plain c"
  shows "feed (cs @ [c]) cons_init =
     (feed cs cons_init)\<lparr>cons_buf := map word_of_int (cs @ [c]),
       cons_w := 128, cons_e := 128,
       trace := trace (feed cs cons_init) @ echo c @ [Store 127 (word_of_int c), Wakeup]\<rparr>"
proof -
  let ?s = "feed cs cons_init"
  from feed_plain [of cs] assms(1,2)
  have r: "cons_r ?s = 0" and e: "cons_e ?s = 127"
    and b: "cons_buf ?s = map word_of_int cs @ [0]"
    by simp_all
  have room: "cons_e ?s - cons_r ?s < 128"
    by (simp add: r e)
  have upd: "(map word_of_int cs @ [0 :: 8 word])[127 := word_of_int c]
      = map word_of_int (cs @ [c])"
    using assms(1) by (simp add: list_update_append)
  show ?thesis
    unfolding feed_snoc consoleintr_plain [OF assms(3) room]
    by (simp add: r e b upd)
qed

lemma feed_excess:
  assumes "cons_e s - cons_r s = 128" and "\<forall>c\<in>set xs. plain c"
  shows "feed xs s = s"
  using assms(2)
proof (induction xs rule: rev_induct)
  case Nil
  show ?case by (simp add: feed_def)
next
  case (snoc x xs)
  then have s: "feed xs s = s" and x: "plain x"
    by simp_all
  from x have "x \<notin> {C 80, C 85, C 72, 127}"
    by (simp add: plain_def)
  moreover have "\<not> (x \<noteq> 0 \<and> cons_e s - cons_r s < 128)"
    by (simp add: assms(1))
  ultimately have "consoleintr x s = s"
    by (rule consoleintr_reject)
  then show ?case
    by (simp add: feed_snoc s)
qed

subsection \<open>Overflow: the forced commit\<close>

lemma byte_not_special:
  assumes "plain c" and "0 < c" and "c < 256"
  shows "(word_of_int c :: 8 word) \<notin> {4, 10}"
proof -
  from assms(2,3) have u: "uint (word_of_int c :: 8 word) = c"
    by (simp add: uint_word_of_int take_bit_eq_mod)
  have "c \<noteq> 4" "c \<noteq> 10"
    using assms(1) by (simp_all add: plain_def C_def)
  then have "uint (word_of_int c :: 8 word) \<noteq> uint (4 :: 8 word)"
    "uint (word_of_int c :: 8 word) \<noteq> uint (10 :: 8 word)"
    unfolding u by simp_all
  then show ?thesis
    by (auto simp only: word_uint_eq_iff insert_iff empty_iff)
qed

text \<open>
  Claim C6.  \<open>N + 2 = 130\<close> plain characters (bytes from the uart) are typed into
  the empty ring.  After each of the first 127 nothing is committed and no wakeup
  has been issued.  The 128th makes \<open>cons.e - cons.r\<close> equal to 128, and with it
  \<open>cons.w\<close> is set to \<open>cons.e\<close> and the one and only wakeup is issued.  The last
  two characters change nothing at all.  The ring then holds the first 128
  characters, all committed, and a \<open>consoleread\<close> asking for \<open>n \<ge> 128\<close> bytes
  copies out exactly these 128 bytes although no newline was typed: it returns
  128 when \<open>n = 128\<close>; when it asked for more it has emptied the ring and waits
  for further input (or returns \<open>-1\<close> if killed).
\<close>

theorem overflow_forced_commit:
  assumes len: "length cs = 130"
    and pl: "\<forall>c\<in>set cs. plain c \<and> 0 < c \<and> c < 256"
    and k: "k < 128"
    and n: "128 \<le> n"
    and ok: "\<forall>i<128. ok user_dst (dst + of_nat i)"
  shows "cons_w (feed (take k cs) cons_init) = 0 \<and>
         Wakeup \<notin> set (trace (feed (take k cs) cons_init)) \<and>
         cons_e (feed (take 128 cs) cons_init) - cons_r (feed (take 128 cs) cons_init) = 128 \<and>
         cons_w (feed (take 128 cs) cons_init) = cons_e (feed (take 128 cs) cons_init) \<and>
         trace (feed (take 128 cs) cons_init) =
           trace (feed (take 127 cs) cons_init) @ echo (cs ! 127) @
             [Store 127 (word_of_int (cs ! 127)), Wakeup] \<and>
         length (filter (\<lambda>ev. ev = Wakeup) (trace (feed cs cons_init))) = 1 \<and>
         feed cs cons_init = feed (take 128 cs) cons_init \<and>
         cons_buf (feed cs cons_init) = map word_of_int (take 128 cs) \<and>
         consoleread kd ok user_dst dst n (feed cs cons_init) =
           (if n = 128 then Returned 128
            else if kd then Returned (- 1)
            else Sleeping user_dst (dst + 128) (n - 128) n,
            (feed cs cons_init)\<lparr>cons_r := 128,
               trace := trace (feed cs cons_init) @
                 map (\<lambda>i. Copyout (dst + of_nat i) (word_of_int (cs ! i))) [0..<128]\<rparr>)"
proof -
  let ?p = "take 127 cs"
  let ?f = "take 128 cs"
  let ?s = "feed cs cons_init"
  have plain_all: "\<forall>c\<in>set cs. plain c"
    using pl by simp
  have plain_take: "\<forall>c\<in>set (take j cs). plain c" for j
    using plain_all by (meson in_set_takeD)
  have plain_drop: "\<forall>c\<in>set (drop 128 cs). plain c"
    using plain_all by (meson in_set_dropD)
  have c127: "plain (cs ! 127)"
    using plain_all len by simp
  have split: "?f = ?p @ [cs ! 127]"
    using len by (simp add: take_Suc_conv_app_nth [of 127 cs, simplified])
  from feed_plain [of "take k cs"] k len plain_take
  have a: "cons_w (feed (take k cs) cons_init) = 0"
    "Wakeup \<notin> set (trace (feed (take k cs) cons_init))"
    by simp_all
  from feed_plain [of ?p] len plain_take
  have p: "cons_r (feed ?p cons_init) = 0" "Wakeup \<notin> set (trace (feed ?p cons_init))"
    by simp_all
  have full: "feed ?f cons_init =
     (feed ?p cons_init)\<lparr>cons_buf := map word_of_int ?f,
       cons_w := 128, cons_e := 128,
       trace := trace (feed ?p cons_init) @ echo (cs ! 127) @
          [Store 127 (word_of_int (cs ! 127)), Wakeup]\<rparr>"
    unfolding split using feed_full [of ?p "cs ! 127"] len plain_take c127 by simp
  have b: "cons_e (feed ?f cons_init) - cons_r (feed ?f cons_init) = 128"
    "cons_w (feed ?f cons_init) = cons_e (feed ?f cons_init)"
    "cons_r (feed ?f cons_init) = 0" "cons_w (feed ?f cons_init) = 128"
    "cons_buf (feed ?f cons_init) = map word_of_int ?f"
    by (simp_all add: full p(1))
  have c: "trace (feed ?f cons_init) = trace (feed ?p cons_init) @ echo (cs ! 127) @
             [Store 127 (word_of_int (cs ! 127)), Wakeup]"
    by (simp add: full)
  have "feed (?f @ drop 128 cs) cons_init = feed (drop 128 cs) (feed ?f cons_init)"
    unfolding feed_def by (rule fold_append [THEN fun_cong, simplified comp_def])
  then have "feed cs cons_init = feed (drop 128 cs) (feed ?f cons_init)"
    by simp
  then have d: "?s = feed ?f cons_init"
    using feed_excess [OF b(1) plain_drop] by simp
  have none: "filter (\<lambda>ev. ev = Wakeup) (trace (feed ?p cons_init)) = []"
    "filter (\<lambda>ev. ev = Wakeup) (echo (cs ! 127)) = []"
    using p(2) by (auto simp: filter_empty_conv echo_def)
  have g: "length (filter (\<lambda>ev. ev = Wakeup) (trace ?s)) = 1"
    unfolding d c by (simp add: none)
  have bytes: "\<forall>i<128. cons_buf ?s ! (unat (cons_r ?s + of_nat i) mod 128) \<notin> {4, 10}"
  proof (intro allI impI)
    fix i :: nat assume i: "i < 128"
    then have "cs ! i \<in> set cs"
      using len by simp
    with pl have "plain (cs ! i)" "0 < cs ! i" "cs ! i < 256"
      by blast+
    then have "(word_of_int (cs ! i) :: 8 word) \<notin> {4, 10}"
      by (rule byte_not_special)
    with i len show "cons_buf ?s ! (unat (cons_r ?s + of_nat i) mod 128) \<notin> {4, 10}"
      by (simp add: d b unat_of_nat)
  qed
  have cp: "map (\<lambda>i. Copyout (dst + of_nat i)
                (cons_buf ?s ! (unat (cons_r ?s + of_nat i) mod 128))) [0..<128] =
            map (\<lambda>i. Copyout (dst + of_nat i) (word_of_int (cs ! i))) [0..<128]"
    using len by (intro map_cong refl) (simp add: d b unat_of_nat)
  have blk: "consoleread kd ok user_dst dst n ?s =
         consoleread_loop kd ok user_dst (dst + 128) (n - 128) n
           (?s\<lparr>cons_r := 128,
              trace := trace ?s @
                map (\<lambda>i. Copyout (dst + of_nat i) (word_of_int (cs ! i))) [0..<128]\<rparr>)"
  proof -
    have room: "128 \<le> unat (cons_w ?s - cons_r ?s)"
      by (simp add: d b(3,4))
    have n': "int 128 \<le> n"
      using n by simp
    have r0: "cons_r ?s = 0"
      by (simp add: d b(3))
    from consoleread_loop_block [of 128 n ?s ok user_dst dst kd n, OF n' room bytes ok]
    show ?thesis
      unfolding consoleread_def cp by (simp add: r0)
  qed
  have f: "consoleread kd ok user_dst dst n ?s =
           (if n = 128 then Returned 128
            else if kd then Returned (- 1)
            else Sleeping user_dst (dst + 128) (n - 128) n,
            ?s\<lparr>cons_r := 128,
               trace := trace ?s @
                 map (\<lambda>i. Copyout (dst + of_nat i) (word_of_int (cs ! i))) [0..<128]\<rparr>)"
    unfolding blk using n
    by (subst consoleread_loop.simps) (simp add: d b(4))
  show ?thesis
    using a b(1,2) c g d f by (simp add: b(5))
qed

theorem overflow_forced_commit_witness:
  "cons_w (feed (take 127 (replicate 130 97)) cons_init) = 0 \<and>
   Wakeup \<notin> set (trace (feed (take 127 (replicate 130 97)) cons_init)) \<and>
   cons_e (feed (take 128 (replicate 130 97)) cons_init)
     - cons_r (feed (take 128 (replicate 130 97)) cons_init) = 128 \<and>
   cons_w (feed (take 128 (replicate 130 97)) cons_init)
     = cons_e (feed (take 128 (replicate 130 97)) cons_init) \<and>
   trace (feed (take 128 (replicate 130 97)) cons_init) =
     trace (feed (take 127 (replicate 130 97)) cons_init) @ echo (replicate 130 97 ! 127) @
       [Store 127 (word_of_int (replicate 130 97 ! 127)), Wakeup] \<and>
   length (filter (\<lambda>ev. ev = Wakeup) (trace (feed (replicate 130 97) cons_init))) = 1 \<and>
   feed (replicate 130 97) cons_init = feed (take 128 (replicate 130 97)) cons_init \<and>
   cons_buf (feed (replicate 130 97) cons_init) = map word_of_int (take 128 (replicate 130 97)) \<and>
   consoleread False (\<lambda>u a. True) 1 4096 128 (feed (replicate 130 97) cons_init) =
     (if (128::int) = 128 then Returned 128
      else if False then Returned (- 1)
      else Sleeping 1 (4096 + 128) (128 - 128) 128,
      (feed (replicate 130 97) cons_init)\<lparr>cons_r := 128,
         trace := trace (feed (replicate 130 97) cons_init) @
           map (\<lambda>i. Copyout (4096 + of_nat i) (word_of_int (replicate 130 97 ! i)))
             [0..<128]\<rparr>)"
  by (rule overflow_forced_commit) (simp_all add: plain_def C_def)

subsection \<open>Echo and store\<close>

lemma full_ring_cursors:
  "cons_r full_ring = 0 \<and> cons_w full_ring = 128 \<and> cons_e full_ring = 128"
proof -
  have pl: "plain 97"
    by (simp add: plain_def C_def)
  have "(128::nat) = Suc 127"
    by simp
  then have eq: "replicate 128 (97::int) = replicate 127 97 @ [97]"
    by (simp only: replicate_Suc replicate_append_same)
  have fr: "full_ring = (feed (replicate 127 97) cons_init)\<lparr>
       cons_buf := map word_of_int (replicate 127 97 @ [97]),
       cons_w := 128, cons_e := 128,
       trace := trace (feed (replicate 127 97) cons_init) @ echo 97 @
         [Store 127 (word_of_int 97), Wakeup]\<rparr>"
    unfolding full_ring_def eq using pl by (intro feed_full) simp_all
  have "cons_r (feed (replicate 127 97) cons_init) = 0"
    using feed_plain [of "replicate 127 97"] pl by simp
  then show ?thesis
    unfolding fr by simp
qed

text \<open>
  Against claim C2 as stated.  With the ring at capacity (128 characters typed,
  none read) a further ordinary character \<open>b\<close> is not echoed: the call emits
  nothing.
\<close>

theorem echo_when_full_counterexample:
  "cons_e full_ring - cons_r full_ring = 128 \<and>
   trace (consoleintr 98 full_ring) = trace full_ring"
proof -
  have full: "cons_e full_ring - cons_r full_ring = 128"
    by (simp add: full_ring_cursors)
  then have "consoleintr 98 full_ring = full_ring"
    by (intro consoleintr_reject) (simp_all add: C_def)
  with full show ?thesis by simp
qed

text \<open>
  Claim C2, amended.  A character that reaches the default branch of
  \<open>consoleintr\<close> is accepted only if it is not NUL and \<open>cons.e - cons.r < 128\<close>.
  An accepted character (a carriage return turned into a newline) is first
  echoed, then stored at slot \<open>cons.e mod 128\<close>, and \<open>cons.e\<close> advances; a wakeup
  follows if it was a newline, control-D, or filled the ring.  A character that
  is not accepted is dropped with no echo and no change of the state.
\<close>

theorem echo_before_store:
  assumes "c \<notin> {C 80, C 85, C 72, 127}"
  shows "(c \<noteq> 0 \<and> cons_e s - cons_r s < 128 \<longrightarrow>
            trace (consoleintr c s) =
              trace s @ echo (if c = 13 then 10 else c) @
                Store (unat (cons_e s) mod 128) (word_of_int (if c = 13 then 10 else c)) #
                (if c = 13 \<or> c = 10 \<or> c = C 68 \<or> cons_e s + 1 - cons_r s = 128
                 then [Wakeup] else []) \<and>
            cons_buf (consoleintr c s) =
              (cons_buf s)[unat (cons_e s) mod 128 := word_of_int (if c = 13 then 10 else c)] \<and>
            cons_e (consoleintr c s) = cons_e s + 1) \<and>
         (\<not> (c \<noteq> 0 \<and> cons_e s - cons_r s < 128) \<longrightarrow> consoleintr c s = s)"
proof (intro conjI impI)
  assume a: "c \<noteq> 0 \<and> cons_e s - cons_r s < 128"
  then have acc: "consoleintr c s =
     s\<lparr>cons_buf := (cons_buf s)[unat (cons_e s) mod 128 := word_of_int (if c = 13 then 10 else c)],
       cons_w := (if c = 13 \<or> c = 10 \<or> c = C 68 \<or> cons_e s + 1 - cons_r s = 128
                  then cons_e s + 1 else cons_w s),
       cons_e := cons_e s + 1,
       trace := trace s @ echo (if c = 13 then 10 else c) @
          Store (unat (cons_e s) mod 128) (word_of_int (if c = 13 then 10 else c)) #
          (if c = 13 \<or> c = 10 \<or> c = C 68 \<or> cons_e s + 1 - cons_r s = 128
           then [Wakeup] else [])\<rparr>"
    using consoleintr_accept [OF assms] by simp
  show "trace (consoleintr c s) =
              trace s @ echo (if c = 13 then 10 else c) @
                Store (unat (cons_e s) mod 128) (word_of_int (if c = 13 then 10 else c)) #
                (if c = 13 \<or> c = 10 \<or> c = C 68 \<or> cons_e s + 1 - cons_r s = 128
                 then [Wakeup] else [])"
    unfolding acc by simp
  show "cons_buf (consoleintr c s) =
      (cons_buf s)[unat (cons_e s) mod 128 := word_of_int (if c = 13 then 10 else c)]"
    unfolding acc by simp
  show "cons_e (consoleintr c s) = cons_e s + 1"
    unfolding acc by simp
next
  assume "\<not> (c \<noteq> 0 \<and> cons_e s - cons_r s < 128)"
  with assms show "consoleintr c s = s"
    by (rule consoleintr_reject)
qed

theorem echo_before_store_witness:
  "trace (consoleintr 97 cons_init) = [Uartputc_sync 97, Store 0 97] \<and>
   cons_buf (consoleintr 97 cons_init) = (replicate 128 0)[0 := 97] \<and>
   cons_e (consoleintr 97 cons_init) = 1 \<and>
   consoleintr 98 full_ring = full_ring"
proof -
  have a: "(97::int) \<notin> {C 80, C 85, C 72, 127}" and b: "(98::int) \<notin> {C 80, C 85, C 72, 127}"
    by (simp_all add: C_def)
  have full: "\<not> (98 \<noteq> (0::int) \<and> cons_e full_ring - cons_r full_ring < 128)"
    by (simp add: full_ring_cursors)
  from echo_before_store [OF a, of cons_init] echo_before_store [OF b, of full_ring] full
  show ?thesis
    by (simp add: cons_init_def echo_def BACKSPACE_def C_def)
qed

subsection \<open>Kill line\<close>

lemma feed_abc: "feed [97, 98, 99] cons_init =
  \<lparr>cons_buf = (replicate 128 0)[0 := 97, Suc 0 := 98, 2 := 99],
   cons_r = 0, cons_w = 0, cons_e = 3,
   trace = [Uartputc_sync 97, Store 0 97, Uartputc_sync 98, Store 1 98,
            Uartputc_sync 99, Store 2 99]\<rparr>"
  by (simp add: intr_eval)

text \<open>
  Claim C5.  After \<open>a\<close>, \<open>b\<close>, \<open>c\<close> typed into the empty ring, control-U moves
  \<open>cons.e\<close> back to \<open>cons.w\<close> and echoes three backspaces (each one the bytes
  backspace, space, backspace); nothing else changes.  In any state with
  \<open>cons.e = cons.w\<close>, control-U changes nothing.
\<close>

theorem kill_line_erases:
  "cons_e (feed [97, 98, 99] cons_init) = cons_w (feed [97, 98, 99] cons_init) + 3 \<and>
   consoleintr (C 85) (feed [97, 98, 99] cons_init) =
     (feed [97, 98, 99] cons_init)\<lparr>cons_e := cons_w (feed [97, 98, 99] cons_init),
        trace := trace (feed [97, 98, 99] cons_init) @
          echo BACKSPACE @ echo BACKSPACE @ echo BACKSPACE\<rparr> \<and>
   echo BACKSPACE = [Uartputc_sync 8, Uartputc_sync 32, Uartputc_sync 8] \<and>
   (cons_e s = cons_w s \<longrightarrow> consoleintr (C 85) s = s)"
proof (intro conjI impI)
  show "cons_e (feed [97, 98, 99] cons_init) = cons_w (feed [97, 98, 99] cons_init) + 3"
    by (simp add: feed_abc)
  show "consoleintr (C 85) (feed [97, 98, 99] cons_init) =
     (feed [97, 98, 99] cons_init)\<lparr>cons_e := cons_w (feed [97, 98, 99] cons_init),
        trace := trace (feed [97, 98, 99] cons_init) @
          echo BACKSPACE @ echo BACKSPACE @ echo BACKSPACE\<rparr>"
    unfolding feed_abc
    apply (simp add: consoleintr_def C_def)
    apply (subst kill_line.simps)
    apply (simp add: consputc_def emit_def echo_def INPUT_BUF_SIZE_def)
    apply (subst kill_line.simps)
    apply (simp add: consputc_def emit_def echo_def INPUT_BUF_SIZE_def)
    apply (subst kill_line.simps)
    apply (simp add: consputc_def emit_def echo_def INPUT_BUF_SIZE_def)
    apply (subst kill_line.simps)
    apply (simp add: consputc_def emit_def echo_def INPUT_BUF_SIZE_def)
    done
  show "echo BACKSPACE = [Uartputc_sync 8, Uartputc_sync 32, Uartputc_sync 8]"
    by (simp add: echo_def)
next
  assume "cons_e s = cons_w s"
  then show "consoleintr (C 85) s = s"
    by (simp add: consoleintr_def C_def kill_line.simps)
qed

theorem kill_line_erases_witness:
  "consoleintr (C 85) (consoleintr (C 85) (feed [97, 98, 99] cons_init)) =
     consoleintr (C 85) (feed [97, 98, 99] cons_init)"
proof -
  let ?s = "consoleintr (C 85) (feed [97, 98, 99] cons_init)"
  from kill_line_erases [of ?s] have "cons_e ?s = cons_w ?s"
    by simp
  with kill_line_erases [of ?s] show ?thesis
    by blast
qed

subsection \<open>A failed copy\<close>

text \<open>
  Claim C10.  When \<open>either_copyout\<close> fails for a byte (which is not control-D),
  \<open>consoleread\<close> returns \<open>target - n\<close>, the number of bytes delivered before,
  and the only change of the state is that \<open>cons.r\<close> has moved past the byte:
  it has been taken out of the ring, is not put back and was not delivered, so
  a later read starts with the byte after it.
\<close>

theorem copyout_failure_consumes:
  assumes "0 < n" and "cons_r s \<noteq> cons_w s"
    and "uint (cons_buf s ! (unat (cons_r s) mod INPUT_BUF_SIZE)) \<noteq> C 68"
    and "\<not> ok user_dst dst"
  shows "consoleread_loop kd ok user_dst dst n target s =
           (Returned (target - n), s\<lparr>cons_r := cons_r s + 1\<rparr>)"
  using assms by (simp add: consoleread_loop.simps Let_def)

text \<open>
  After \<open>a\<close>, \<open>b\<close>, newline: a read whose first copy fails returns 0 and has
  consumed \<open>a\<close>; the read after it delivers \<open>b\<close> and the newline only.
\<close>

theorem copyout_failure_consumes_witness:
  "consoleread_loop False (\<lambda>u a. False) 1 4096 5 5 (feed [97, 98, 10] cons_init) =
     (Returned (5 - 5),
      (feed [97, 98, 10] cons_init)\<lparr>cons_r := cons_r (feed [97, 98, 10] cons_init) + 1\<rparr>) \<and>
   consoleread False (\<lambda>u a. True) 1 4096 5
      ((feed [97, 98, 10] cons_init)\<lparr>cons_r := cons_r (feed [97, 98, 10] cons_init) + 1\<rparr>) =
     (Returned 2, (feed [97, 98, 10] cons_init)\<lparr>cons_r := 3,
         trace := trace (feed [97, 98, 10] cons_init) @ [Copyout 4096 98, Copyout 4097 10]\<rparr>)"
proof (rule conjI)
  show "consoleread_loop False (\<lambda>u a. False) 1 4096 5 5 (feed [97, 98, 10] cons_init) =
     (Returned (5 - 5),
      (feed [97, 98, 10] cons_init)\<lparr>cons_r := cons_r (feed [97, 98, 10] cons_init) + 1\<rparr>)"
    by (rule copyout_failure_consumes) (simp_all add: feed_ab_nl INPUT_BUF_SIZE_def C_def)
  show "consoleread False (\<lambda>u a. True) 1 4096 5
      ((feed [97, 98, 10] cons_init)\<lparr>cons_r := cons_r (feed [97, 98, 10] cons_init) + 1\<rparr>) =
     (Returned 2, (feed [97, 98, 10] cons_init)\<lparr>cons_r := 3,
         trace := trace (feed [97, 98, 10] cons_init) @ [Copyout 4096 98, Copyout 4097 10]\<rparr>)"
    unfolding feed_ab_nl consoleread_def
    apply (subst consoleread_loop.simps)
    apply (simp add: read_eval)
    apply (subst consoleread_loop.simps)
    apply (simp add: read_eval)
    done
qed

end
